theory Spec2Isabelle
  imports
    Main
    "HOL-Library.Sublist"
    "HOL-Library.Multiset"
    "HOL-Library.Char_ord"
    "HOL-Library.List_Lexorder"
    "HOL-Library.Product_Lexorder"
begin

section \<open>The backup endpoint (domain/backup/endpoint.go)\<close>

subsection \<open>Data\<close>

text \<open>
  A Go \<open>error\<close> value is modelled by its message (what \<open>err.Error()\<close> returns).
  File contents and request bodies are byte strings.
\<close>

datatype error = Error string

fun errmsg :: "error \<Rightarrow> string" where
  "errmsg (Error m) = m"

type_synonym bytes = string

text \<open>
  \<open>domain.RequestContext\<close> and \<open>model/backup.ExportSpec\<close> are declared in other
  packages; the records carry the fields that \<open>Handler.Backup\<close> reads.
\<close>

record RequestContext =
  Administrator :: bool
  UserID :: string
  OrgID :: string

record ExportSpec =
  Retain :: bool

text \<open>
  The request: the context that \<open>domain.GetRequestContext\<close> extracts from it and the
  outcome of \<open>ioutil.ReadAll(r.Body)\<close>.
\<close>

record request =
  GetRequestContext :: RequestContext
  Body :: "error + bytes"

text \<open>The local disk: file name to contents.\<close>

type_synonym fs = "string \<rightharpoonup> bytes"

text \<open>
  Everything the handler does to the outside is recorded, in order, as an event: the
  calls on the response writer, the log, the request body and the disk. The functions
  of package \<open>core/response\<close> that write an error response
  (\<open>WriteForbiddenError\<close>, \<open>WriteBadRequestError\<close>, \<open>WriteServerError\<close>) are recorded
  as calls with the arguments that the handler passes.
\<close>

datatype event =
    EvWriteForbiddenError
  | EvWriteBadRequestError string string
  | EvWriteServerError string error
  | EvLogInfo string
  | EvLogError string error
  | EvReadAll
  | EvUnmarshal bytes
  | EvGenerateBackup
  | EvReadFile string
  | EvHeaderSet string string
  | EvWrite bytes
  | EvWriteHeader nat
  | EvRemove string
  | EvCloseBody

record world =
  disk :: fs
  header :: "string \<rightharpoonup> string"
  trace :: "event list"

text \<open>
  The collaborators of the handler that live in other packages, as parameters:
  \<^item> \<open>Unmarshal\<close>: \<open>json.Unmarshal\<close> of the body into an \<open>ExportSpec\<close>;
  \<^item> \<open>GenerateBackup\<close>: \<open>backerHandler.GenerateBackup\<close>, which writes the zip file
    to disk and returns its name, or an error; it may change the disk in both cases;
  \<^item> \<open>ReadFault\<close>: an I/O error of \<open>ioutil.ReadFile\<close> on a file name, if any;
  \<^item> \<open>ResponseWrite\<close>: the result \<open>(n, err)\<close> of \<open>w.Write\<close> on the bytes given.
\<close>

record env =
  Unmarshal :: "bytes \<Rightarrow> error + ExportSpec"
  GenerateBackup :: "RequestContext \<Rightarrow> ExportSpec \<Rightarrow> fs \<Rightarrow> fs \<times> (error + string)"
  ReadFault :: "string \<Rightarrow> error option"
  ResponseWrite :: "bytes \<Rightarrow> nat \<times> error option"

subsection \<open>Primitive effects\<close>

definition emit :: "event \<Rightarrow> world \<Rightarrow> world" where
  "emit e s = s\<lparr>trace := trace s @ [e]\<rparr>"

definition Header_Set :: "string \<Rightarrow> string \<Rightarrow> world \<Rightarrow> world" where
  "Header_Set k v s = emit (EvHeaderSet k v) (s\<lparr>header := (header s)(k \<mapsto> v)\<rparr>)"

text \<open>\<open>ioutil.ReadFile\<close>: an I/O fault, a missing file, or the whole contents.\<close>

definition ReadFile :: "env \<Rightarrow> fs \<Rightarrow> string \<Rightarrow> error + bytes" where
  "ReadFile h d name =
     (case ReadFault h name of
        Some e \<Rightarrow> Inl e
      | None \<Rightarrow>
          (case d name of
             None \<Rightarrow> Inl (Error (''open '' @ name @ '': no such file or directory''))
           | Some b \<Rightarrow> Inr b))"

text \<open>
  \<open>os.Remove\<close>: the handler discards its result; the model takes the call at its
  documented effect, the named file is gone afterwards.
\<close>

definition Remove :: "string \<Rightarrow> world \<Rightarrow> world" where
  "Remove name s = emit (EvRemove name) (s\<lparr>disk := (disk s)(name := None)\<rparr>)"

text \<open>The verb \<open>%d\<close> of \<open>fmt.Sprintf\<close> on a non-negative integer.\<close>

definition digit_char :: "nat \<Rightarrow> char" where
  "digit_char d = char_of (48 + d)"

function fmt_d :: "nat \<Rightarrow> string" where
  "fmt_d n = (if n < 10 then [digit_char n] else fmt_d (n div 10) @ [digit_char (n mod 10)])"
  by pat_completeness auto
termination
  by (relation "measure (\<lambda>n. n)") auto

declare fmt_d.simps [simp del]

subsection \<open>Handler.Backup\<close>

definition method_name :: string where
  "method_name = ''system.backup''"

text \<open>
  The part of \<open>Backup\<close> from the first read of the body to the return; the deferred
  \<open>streamutil.Close(r.Body)\<close> runs after it on every path.
\<close>

definition Backup_admin :: "env \<Rightarrow> request \<Rightarrow> world \<Rightarrow> world" where
  "Backup_admin h r s0 =
    (let ctx = GetRequestContext r;
         s1 = emit EvReadAll s0
     in case Body r of
          Inl err \<Rightarrow>
            emit (EvLogError method_name err)
              (emit (EvWriteBadRequestError method_name (errmsg err)) s1)
        | Inr body \<Rightarrow>
            (let s2 = emit (EvUnmarshal body) s1
             in case Unmarshal h body of
                  Inl err \<Rightarrow>
                    emit (EvLogError method_name err)
                      (emit (EvWriteBadRequestError method_name (errmsg err)) s2)
                | Inr spec \<Rightarrow>
                    (let s3 = emit (EvLogInfo ''Backup started'') s2;
                         (d, res) = GenerateBackup h ctx spec (disk s3);
                         s4 = emit EvGenerateBackup (s3\<lparr>disk := d\<rparr>)
                     in case res of
                          Inl err \<Rightarrow>
                            emit (EvLogError method_name err)
                              (emit (EvWriteServerError method_name err) s4)
                        | Inr filename \<Rightarrow>
                            (let s5 = emit (EvReadFile filename) s4
                             in case ReadFile h (disk s5) filename of
                                  Inl err \<Rightarrow>
                                    emit (EvLogError method_name err)
                                      (emit (EvWriteServerError method_name err) s5)
                                | Inr bk \<Rightarrow>
                                    (let s6 = Header_Set ''Content-Type'' ''application/zip'' s5;
                                         s7 = Header_Set ''Content-Disposition''
                                                (''attachment; filename=\"'' @ filename @ ''\" ; ''
                                                  @ ''filename*=\"'' @ filename @ ''\"'') s6;
                                         s8 = Header_Set ''Content-Length'' (fmt_d (length bk)) s7;
                                         s9 = Header_Set ''x-documize-filename'' filename s8;
                                         (x, werr) = ResponseWrite h bk;
                                         s10 = emit (EvWrite bk) s9
                                     in case werr of
                                          Some err \<Rightarrow>
                                            emit (EvLogError method_name err)
                                              (emit (EvWriteServerError method_name err) s10)
                                        | None \<Rightarrow>
                                            (let s11 = emit (EvWriteHeader 200) s10;
                                                 s12 = emit (EvLogInfo
                                                          (''Backup completed for '' @ OrgID ctx @ '' by ''
                                                            @ UserID ctx @ '', size '' @ fmt_d x)) s11
                                             in if \<not> Retain spec then Remove filename s12
                                                else s12))))))"

definition Backup :: "env \<Rightarrow> request \<Rightarrow> world \<Rightarrow> world" where
  "Backup h r s0 =
    (let ctx = GetRequestContext r
     in if \<not> Administrator ctx then
          emit (EvLogInfo (''Non-admin attempted system backup operation (user ID: ''
                            @ UserID ctx @ '')''))
            (emit EvWriteForbiddenError s0)
        else emit EvCloseBody (Backup_admin h r s0))"

subsection \<open>Observations and test fixtures for the handler\<close>

definition fresh :: "fs \<Rightarrow> world" where
  "fresh d = \<lparr>disk = d, header = Map.empty, trace = []\<rparr>"

definition content_disposition :: "string \<Rightarrow> string" where
  "content_disposition filename =
     ''attachment; filename=\"'' @ filename @ ''\" ; '' @ ''filename*=\"'' @ filename @ ''\"''"

definition json_env :: env where
  "json_env =
     \<lparr>Unmarshal = (\<lambda>b. if b = ''{\"retain\":true}'' then Inr \<lparr>Retain = True\<rparr>
                       else if b = ''{}'' then Inr \<lparr>Retain = False\<rparr>
                       else Inl (Error ''unexpected end of JSON input'')),
      GenerateBackup = (\<lambda>ctx spec d. (d(''dmz-backup.zip'' \<mapsto> ''PK''), Inr ''dmz-backup.zip'')),
      ReadFault = (\<lambda>name. None),
      ResponseWrite = (\<lambda>b. (length b, None))\<rparr>"

definition admin_ctx :: RequestContext where
  "admin_ctx = \<lparr>Administrator = True, UserID = ''u1'', OrgID = ''o1''\<rparr>"

definition admin_req :: "error + bytes \<Rightarrow> request" where
  "admin_req b = \<lparr>GetRequestContext = admin_ctx, Body = b\<rparr>"

definition success_headers :: "string \<Rightarrow> bytes \<Rightarrow> (string \<rightharpoonup> string) \<Rightarrow> (string \<rightharpoonup> string)" where
  "success_headers filename bk hs =
     hs(''Content-Type'' \<mapsto> ''application/zip'',
        ''Content-Disposition'' \<mapsto> content_disposition filename,
        ''Content-Length'' \<mapsto> fmt_d (length bk),
        ''x-documize-filename'' \<mapsto> filename)"

definition transfer_events :: "bytes \<Rightarrow> string \<Rightarrow> bytes \<Rightarrow> event list" where
  "transfer_events body filename bk =
     [EvReadAll, EvUnmarshal body, EvLogInfo ''Backup started'', EvGenerateBackup,
      EvReadFile filename,
      EvHeaderSet ''Content-Type'' ''application/zip'',
      EvHeaderSet ''Content-Disposition'' (content_disposition filename),
      EvHeaderSet ''Content-Length'' (fmt_d (length bk)),
      EvHeaderSet ''x-documize-filename'' filename,
      EvWrite bk]"

definition new_events :: "env \<Rightarrow> request \<Rightarrow> world \<Rightarrow> event list" where
  "new_events h r s = drop (length (trace s)) (trace (Backup h r s))"

definition guest_req :: request where
  "guest_req = \<lparr>GetRequestContext = \<lparr>Administrator = False, UserID = ''u2'', OrgID = ''o1''\<rparr>,
                 Body = Inr ''{}''\<rparr>"

definition broken_pipe_env :: env where
  "broken_pipe_env = json_env\<lparr>ResponseWrite := (\<lambda>b. (0, Some (Error ''broken pipe'')))\<rparr>"

definition read_fault_env :: env where
  "read_fault_env = json_env\<lparr>ReadFault := (\<lambda>name. Some (Error ''input/output error''))\<rparr>"

definition disk_full_env :: env where
  "disk_full_env = json_env\<lparr>GenerateBackup := (\<lambda>ctx spec d. (d, Inl (Error ''no space left on device'')))\<rparr>"


section \<open>The GitHub issues report (core/section/github/issues.go)\<close>

subsection \<open>Data\<close>

text \<open>
  A \<open>time.Time\<close> is an instant, counted from the zero value \<open>time.Time{}\<close>;
  \<open>t.Before(u)\<close> is \<open>t < u\<close>.
\<close>

type_synonym time = int

record githubIssue =
  ID :: int
  Date :: string
  Updated :: string
  Message :: string
  URL :: string
  Name :: string
  Avatar :: string
  Labels :: string
  LabelNames :: "string list"
  IsOpen :: bool
  Repo :: string
  Private :: bool
  Milestone :: string

text \<open>
  \<open>githubSharedLabel\<close>. Its fields \<open>Name\<close>, \<open>Count\<close> and \<open>Repos\<close> carry the prefix
  \<open>sl\<close> here, since \<open>githubIssue\<close> has a field \<open>Name\<close> too.
\<close>

record githubSharedLabel =
  slName :: string
  slCount :: int
  slRepos :: string

text \<open>
  The types of the go-github client, with the fields that \<open>getIssues\<close> reads. A
  pointer field is an option: \<open>None\<close> is \<open>nil\<close>. Where two of the types have a field
  of the same name, the name carries the type as a prefix (\<open>labelName\<close> is \<open>Name\<close> of
  a \<open>Label\<close>, \<open>issueState\<close> is \<open>State\<close> of an \<open>Issue\<close>, \<open>optState\<close> is \<open>State\<close> of
  the options).
\<close>

record gogithub_User =
  Login :: "string option"
  AvatarURL :: "string option"

record gogithub_Label =
  labelName :: "string option"
  labelColor :: "string option"

record gogithub_Milestone =
  Title :: "string option"

record gogithub_Issue =
  issueNumber :: "int option"
  issueState :: "string option"
  issueTitle :: "string option"
  issueHTMLURL :: "string option"
  issueAssignee :: "gogithub_User option"
  issueLabels :: "gogithub_Label list"
  issueMilestone :: "gogithub_Milestone option"
  issueCreatedAt :: "time option"
  issueUpdatedAt :: "time option"

record IssueListByRepoOptions =
  optSort :: string
  optState :: string
  optPerPage :: int
  optSince :: time

text \<open>
  \<open>githubConfig\<close>, the entries of its \<open>Lists\<close> and \<open>githubRender\<close> are declared in
  another file of the package; the records carry the fields read and written here
  (\<open>brOwner\<close> is \<open>Owner\<close> of a list entry, \<open>cfgOwner\<close> is \<open>Owner\<close> of the
  configuration). The counters are Go \<open>int\<close>s; they count the elements of a slice
  and so stay far below the largest \<open>int\<close>.
\<close>

record githubBranch =
  brOwner :: string
  brRepo :: string
  brIncluded :: bool
  brPrivate :: bool

record githubConfig =
  cfgOwner :: string
  Lists :: "githubBranch list"
  BranchLines :: int
  SincePtr :: "time option"

record githubRender =
  Issues :: "githubIssue list"
  OpenIssues :: int
  ClosedIssues :: int
  HasIssues :: bool
  SharedLabels :: "githubSharedLabel list"
  HasSharedLabels :: bool

text \<open>
  What the file takes from the rest of its package, from the standard library and
  from the Go runtime, as parameters: the constants \<open>noMilestone\<close> and
  \<open>githubGravatar\<close>, the helper \<open>repoName\<close>, \<open>time.Parse\<close> and \<open>Time.Format\<close>,
  and the order in which a \<open>range\<close> over a map visits the entries (not specified by
  the language).
\<close>

record pkg =
  noMilestone :: string
  githubGravatar :: string
  repoName :: "string \<Rightarrow> string"
  time_Parse :: "string \<Rightarrow> string \<Rightarrow> error + time"
  time_Format :: "time \<Rightarrow> string \<Rightarrow> string"
  range_order :: "(string \<times> string list) list \<Rightarrow> (string \<times> string list) list"

text \<open>\<open>client.Issues.ListByRepo(owner, repo, opts)\<close>.\<close>

type_synonym client = "string \<Rightarrow> string \<Rightarrow> IssueListByRepoOptions \<Rightarrow> error + gogithub_Issue list"

type_synonym call = "string \<times> string \<times> IssueListByRepoOptions"

text \<open>A function either returns or panics (here: on a nil pointer dereference).\<close>

datatype 'a go_result = Panicked | Returned 'a

subsection \<open>issuesToSort and sharedLabelsSort\<close>

definition issuesTimeFormat :: string where
  "issuesTimeFormat = ''January 2 2006, 15:04''"

text \<open>
  The value that \<open>Less\<close> uses for an \<open>Updated\<close> string: \<open>time.Parse\<close> returns the
  zero time together with an error, and \<open>log.IfErr\<close> only logs the error.
\<close>

definition parsed :: "pkg \<Rightarrow> string \<Rightarrow> time" where
  "parsed p u = (case time_Parse p issuesTimeFormat u of Inl err \<Rightarrow> 0 | Inr t \<Rightarrow> t)"

text \<open>The body of \<open>issuesToSort.Less\<close> on the two elements \<open>s[i]\<close> and \<open>s[j]\<close>.\<close>

definition issue_less :: "pkg \<Rightarrow> githubIssue \<Rightarrow> githubIssue \<Rightarrow> bool" where
  "issue_less p si sj =
     (if Milestone si \<noteq> noMilestone p \<and> Milestone sj = noMilestone p then True
      else if Milestone si = noMilestone p \<and> Milestone sj \<noteq> noMilestone p then False
      else if Milestone si \<noteq> Milestone sj then Milestone si < Milestone sj
      else if \<not> IsOpen si \<and> IsOpen sj then True
      else if IsOpen si \<and> \<not> IsOpen sj then False
      else (let iDate = parsed p (Updated si);
                jDate = parsed p (Updated sj)
            in iDate < jDate))"


definition label_less :: "githubSharedLabel \<Rightarrow> githubSharedLabel \<Rightarrow> bool" where
  "label_less a b = (slName a < slName b)"

text \<open>
  \<open>sort.Sort\<close> orders a slice by its \<open>Less\<close>, not stably. The model is the insertion
  sort that the library runs on short ranges: each element moves towards the front
  while it is \<open>Less\<close> than its left neighbour. \<open>sift\<close> works on the sorted front
  part held in reverse, nearest neighbour first.
\<close>

fun sift :: "('a \<Rightarrow> 'a \<Rightarrow> bool) \<Rightarrow> 'a \<Rightarrow> 'a list \<Rightarrow> 'a list" where
  "sift lt x [] = [x]"
| "sift lt x (y # ys) = (if lt x y then y # sift lt x ys else x # y # ys)"

definition sort_Sort :: "('a \<Rightarrow> 'a \<Rightarrow> bool) \<Rightarrow> 'a list \<Rightarrow> 'a list" where
  "sort_Sort lt xs = rev (foldl (\<lambda>front x. sift lt x front) [] xs)"

subsection \<open>wrapLabels and getIssues\<close>

fun wrapLabels_loop :: "gogithub_Label list \<Rightarrow> string \<times> string list \<Rightarrow> (string \<times> string list) go_result" where
  "wrapLabels_loop [] (l, labelNames) = Returned (l, labelNames)"
| "wrapLabels_loop (ll # labels) (l, labelNames) =
     (case (labelName ll, labelColor ll) of
        (Some name, Some color) \<Rightarrow>
          wrapLabels_loop labels
            (l @ ''<span class=\"github-issue-label\" style=\"background-color:#'' @ color
               @ ''\">'' @ name @ ''</span> '',
             labelNames @ [name])
      | _ \<Rightarrow> Panicked)"

definition wrapLabels :: "gogithub_Label list \<Rightarrow> (string \<times> string list) go_result" where
  "wrapLabels labels = wrapLabels_loop labels ([], [])"

text \<open>The body of the innermost loop of \<open>getIssues\<close>: one fetched issue to one row.\<close>

definition issue_row :: "pkg \<Rightarrow> githubBranch \<Rightarrow> string \<Rightarrow> gogithub_Issue \<Rightarrow> githubIssue go_result" where
  "issue_row p orb rName v =
     (case (case issueAssignee v of
              None \<Rightarrow> Returned (''(unassigned)'', githubGravatar p)
            | Some ptr \<Rightarrow>
                (case Login ptr of
                   None \<Rightarrow> Returned (''(unassigned)'', githubGravatar p)
                 | Some login \<Rightarrow>
                     (case AvatarURL ptr of
                        None \<Rightarrow> Panicked
                      | Some url \<Rightarrow> Returned (login, url)))) of
        Panicked \<Rightarrow> Panicked
      | Returned (n, av) \<Rightarrow>
          (let ms = (case issueMilestone v of
                       None \<Rightarrow> noMilestone p
                     | Some m \<Rightarrow> (case Title m of None \<Rightarrow> noMilestone p | Some t \<Rightarrow> t))
           in case wrapLabels (issueLabels v) of
                Panicked \<Rightarrow> Panicked
              | Returned (l, ln) \<Rightarrow>
                  (case (issueTitle v, issueCreatedAt v, issueUpdatedAt v,
                         issueHTMLURL v, issueNumber v, issueState v) of
                     (Some title, Some created, Some updated, Some url, Some number, Some state) \<Rightarrow>
                       Returned \<lparr>ID = number,
                                 Date = time_Format p created issuesTimeFormat,
                                 Updated = time_Format p updated issuesTimeFormat,
                                 Message = title,
                                 URL = url,
                                 Name = n,
                                 Avatar = av,
                                 Labels = l,
                                 LabelNames = ln,
                                 IsOpen = (state = ''open''),
                                 Repo = repoName p rName,
                                 Private = brPrivate orb,
                                 Milestone = ms\<rparr>
                   | _ \<Rightarrow> Panicked)))"

fun append_rows :: "pkg \<Rightarrow> githubBranch \<Rightarrow> string \<Rightarrow> gogithub_Issue list \<Rightarrow> githubIssue list
    \<Rightarrow> githubIssue list go_result" where
  "append_rows p orb rName [] ret = Returned ret"
| "append_rows p orb rName (v # guff) ret =
     (case issue_row p orb rName v of
        Panicked \<Rightarrow> Panicked
      | Returned row \<Rightarrow> append_rows p orb rName guff (ret @ [row]))"

text \<open>
  The state of the loops of \<open>getIssues\<close>: the slice \<open>ret\<close>, the map \<open>hadRepo\<close> (a
  missing key reads as false) and, for the claims about what is fetched, the calls
  made on the client so far. A loop either runs to its end or leaves the function:
  with \<open>return ret, err\<close> or with a panic.
\<close>

record loop_state =
  ret :: "githubIssue list"
  hadRepo :: "string \<Rightarrow> bool"
  calls :: "call list"

datatype flow = Continue | ReturnErr error | Panic

definition list_opts :: "githubConfig \<Rightarrow> string \<Rightarrow> IssueListByRepoOptions" where
  "list_opts config state =
     \<lparr>optSort = ''updated'', optState = state, optPerPage = BranchLines config,
      optSince = (case SincePtr config of
                    None \<Rightarrow> 0
                  | Some since \<Rightarrow> if state = ''closed'' then since else 0)\<rparr>"

fun states_loop :: "pkg \<Rightarrow> client \<Rightarrow> githubConfig \<Rightarrow> githubBranch \<Rightarrow> string \<Rightarrow> string list
    \<Rightarrow> loop_state \<Rightarrow> flow \<times> loop_state" where
  "states_loop p cl config orb rName [] st = (Continue, st)"
| "states_loop p cl config orb rName (state # states) st =
     (let opts = list_opts config state;
          st1 = st\<lparr>calls := calls st @ [(brOwner orb, brRepo orb, opts)]\<rparr>
      in case cl (brOwner orb) (brRepo orb) opts of
           Inl err \<Rightarrow> (ReturnErr err, st1)
         | Inr guff \<Rightarrow>
             (case append_rows p orb rName guff (ret st1) of
                Panicked \<Rightarrow> (Panic, st1)
              | Returned rows \<Rightarrow> states_loop p cl config orb rName states (st1\<lparr>ret := rows\<rparr>)))"

fun lists_loop :: "pkg \<Rightarrow> client \<Rightarrow> githubConfig \<Rightarrow> githubBranch list \<Rightarrow> loop_state
    \<Rightarrow> flow \<times> loop_state" where
  "lists_loop p cl config [] st = (Continue, st)"
| "lists_loop p cl config (orb # rest) st =
     (if brIncluded orb then
        (let rName = brOwner orb @ ''/'' @ brRepo orb
         in if \<not> hadRepo st rName then
              (case states_loop p cl config orb rName [''open'', ''closed''] st of
                 (Continue, st') \<Rightarrow>
                   lists_loop p cl config rest (st'\<lparr>hadRepo := (hadRepo st')(rName := True)\<rparr>)
               | (exit, st') \<Rightarrow> (exit, st'))
            else lists_loop p cl config rest (st\<lparr>hadRepo := (hadRepo st)(rName := True)\<rparr>))
      else lists_loop p cl config rest st)"

definition getIssues :: "pkg \<Rightarrow> client \<Rightarrow> githubConfig
    \<Rightarrow> call list \<times> (githubIssue list \<times> error option) go_result" where
  "getIssues p cl config =
     (case lists_loop p cl config (Lists config) \<lparr>ret = [], hadRepo = (\<lambda>k. False), calls = []\<rparr> of
        (Continue, st) \<Rightarrow> (calls st, Returned (sort_Sort (issue_less p) (ret st), None))
      | (ReturnErr err, st) \<Rightarrow> (calls st, Returned (ret st, Some err))
      | (Panic, st) \<Rightarrow> (calls st, Panicked))"

subsection \<open>refreshIssues\<close>

text \<open>
  The map \<open>sharedLabels\<close> from a label name to the repositories of the issues that
  carry it, one entry per occurrence: a list of pairs with one pair per key.
  \<open>map_append name r m\<close> is \<open>m[name] = append(m[name], r)\<close>.
\<close>

type_synonym label_map = "(string \<times> string list) list"

fun map_append :: "string \<Rightarrow> string \<Rightarrow> label_map \<Rightarrow> label_map" where
  "map_append lab r [] = [(lab, [r])]"
| "map_append lab r ((k, rs) # m) =
     (if k = lab then (k, rs @ [r]) # m else (k, rs) # map_append lab r m)"

fun labels_loop :: "string list \<Rightarrow> string \<Rightarrow> label_map \<Rightarrow> label_map" where
  "labels_loop [] repo m = m"
| "labels_loop (lab # labs) repo m = labels_loop labs repo (map_append lab repo m)"

fun issues_loop :: "githubIssue list \<Rightarrow> githubRender \<times> label_map \<Rightarrow> githubRender \<times> label_map" where
  "issues_loop [] (gr, m) = (gr, m)"
| "issues_loop (v # vs) (gr, m) =
     issues_loop vs
       (if IsOpen v then gr\<lparr>OpenIssues := OpenIssues gr + 1\<rparr>
        else gr\<lparr>ClosedIssues := ClosedIssues gr + 1\<rparr>,
        labels_loop (LabelNames v) (Repo v) m)"

definition apostrophe :: string where
  "apostrophe = [CHR 0x27]"

fun show_loop :: "string \<Rightarrow> string \<Rightarrow> nat \<Rightarrow> string list \<Rightarrow> string \<Rightarrow> string" where
  "show_loop owner name i [] acc = acc"
| "show_loop owner name i (r # repos) acc =
     show_loop owner name (Suc i) repos
       ((if i > 0 then acc @ '', '' else acc)
         @ ''<a href='' @ apostrophe @ ''https://github.com/'' @ owner @ ''/'' @ r
         @ ''/issues?q=is%3Aissue+label%3A'' @ name @ apostrophe @ ''>'' @ r @ ''</a>'')"

fun shared_loop :: "githubConfig \<Rightarrow> label_map \<Rightarrow> githubSharedLabel list \<Rightarrow> githubSharedLabel list" where
  "shared_loop config [] out = out"
| "shared_loop config ((name, repos) # m) out =
     (if length repos > 1 then
        shared_loop config m
          (out @ [\<lparr>slName = name, slCount = int (length repos),
                   slRepos = show_loop (cfgOwner config) name 0 repos []\<rparr>])
      else shared_loop config m out)"

definition refreshIssues :: "pkg \<Rightarrow> githubRender \<Rightarrow> githubConfig \<Rightarrow> client
    \<Rightarrow> call list \<times> (githubRender \<times> error option) go_result" where
  "refreshIssues p gr config cl =
     (case getIssues p cl config of
        (cs, Panicked) \<Rightarrow> (cs, Panicked)
      | (cs, Returned (issues, Some err)) \<Rightarrow> (cs, Returned (gr\<lparr>Issues := issues\<rparr>, Some err))
      | (cs, Returned (issues, None)) \<Rightarrow>
          (let gr1 = gr\<lparr>Issues := issues, OpenIssues := 0, ClosedIssues := 0\<rparr>;
               (gr2, sharedLabels) = issues_loop (Issues gr1) (gr1, []);
               gr3 = gr2\<lparr>HasIssues := (OpenIssues gr2 + ClosedIssues gr2 > 0)\<rparr>;
               gr4 = gr3\<lparr>SharedLabels :=
                       sort_Sort label_less (shared_loop config (range_order p sharedLabels) [])\<rparr>;
               gr5 = gr4\<lparr>HasSharedLabels := (length (SharedLabels gr4) > 0)\<rparr>
           in (cs, Returned (gr5, None))))"

subsection \<open>Test fixtures for the report\<close>

definition test_pkg :: pkg where
  "test_pkg =
     \<lparr>noMilestone = ''no milestone'',
      githubGravatar = ''https://i2.wp.com/assets-cdn.github.com/images/gravatars/gravatar-user-420.png'',
      repoName = (\<lambda>rName. drop (Suc (length (takeWhile (\<lambda>c. c \<noteq> CHR ''/'') rName))) rName),
      time_Parse = (\<lambda>layout v.
         if v = ''January 2 2006, 15:04'' then Inr 100
         else if v = ''January 3 2006, 15:04'' then Inr 200
         else Inl (Error ''parsing time'')),
      time_Format = (\<lambda>t layout.
         if t = 100 then ''January 2 2006, 15:04''
         else if t = 200 then ''January 3 2006, 15:04''
         else ''January 1 0001, 00:00''),
      range_order = rev\<rparr>"

definition raw_issue :: "int \<Rightarrow> string \<Rightarrow> string list \<Rightarrow> string option \<Rightarrow> time \<Rightarrow> gogithub_Issue" where
  "raw_issue n state labs ms t =
     \<lparr>issueNumber = Some n, issueState = Some state, issueTitle = Some ''title'',
      issueHTMLURL = Some ''https://github.com/x'', issueAssignee = None,
      issueLabels = map (\<lambda>l. \<lparr>labelName = Some l, labelColor = Some ''ffffff''\<rparr>) labs,
      issueMilestone = (case ms of None \<Rightarrow> None | Some m \<Rightarrow> Some \<lparr>Title = Some m\<rparr>),
      issueCreatedAt = Some 100, issueUpdatedAt = Some t\<rparr>"

definition test_client :: client where
  "test_client owner repo opts =
     (if repo = ''community'' then
        (if optState opts = ''open'' then Inr [raw_issue 1 ''open'' [''bug''] None 200]
         else Inr [raw_issue 2 ''closed'' [''bug'', ''docs''] (Some ''v1'') 100])
      else if repo = ''conversion'' then
        (if optState opts = ''open'' then Inr [raw_issue 3 ''open'' [''docs''] (Some ''v1'') 100]
         else Inr [])
      else Inl (Error ''404 Not Found''))"

definition branch :: "string \<Rightarrow> bool \<Rightarrow> githubBranch" where
  "branch repo inc = \<lparr>brOwner = ''documize'', brRepo = repo, brIncluded = inc, brPrivate = False\<rparr>"

definition test_config :: "githubBranch list \<Rightarrow> githubConfig" where
  "test_config bs = \<lparr>cfgOwner = ''documize'', Lists = bs, BranchLines = 100, SincePtr = None\<rparr>"

definition empty_render :: githubRender where
  "empty_render = \<lparr>Issues = [], OpenIssues = 0, ClosedIssues = 0, HasIssues = False,
                    SharedLabels = [], HasSharedLabels = False\<rparr>"

subsection \<open>Observations on the report\<close>

text \<open>
  The order of \<open>issuesToSort.Less\<close> read as a comparison of keys: without a milestone
  last, then the milestone, closed before open, then the time of the last update.
\<close>

definition issue_key :: "pkg \<Rightarrow> githubIssue \<Rightarrow> bool \<times> string \<times> bool \<times> time" where
  "issue_key p v = (Milestone v = noMilestone p, Milestone v, IsOpen v, parsed p (Updated v))"

text \<open>Rows for trying the comparator.\<close>

definition row :: "string \<Rightarrow> bool \<Rightarrow> string \<Rightarrow> githubIssue" where
  "row ms opn upd =
     \<lparr>ID = 1, Date = ''January 2 2006, 15:04'', Updated = upd, Message = ''title'',
      URL = ''https://github.com/x'', Name = ''(unassigned)'', Avatar = '''', Labels = '''',
      LabelNames = [], IsOpen = opn, Repo = ''community'', Private = False, Milestone = ms\<rparr>"


text \<open>
  Of a call on the client: the repository and state it asks for, the key under which
  \<open>hadRepo\<close> remembers the repository, and whether the repository is that of an
  included entry of the configuration. \<open>fetched\<close> counts the issues that the calls
  returned.
\<close>

definition call_key :: "call \<Rightarrow> string \<times> string \<times> string" where
  "call_key c = (fst c, fst (snd c), optState (snd (snd c)))"

definition call_rName :: "call \<Rightarrow> string" where
  "call_rName c = fst c @ ''/'' @ fst (snd c)"

definition fetched :: "client \<Rightarrow> call list \<Rightarrow> nat" where
  "fetched cl cs =
     sum_list (map (\<lambda>c. case cl (fst c) (fst (snd c)) (snd (snd c)) of
                          Inl err \<Rightarrow> 0 | Inr guff \<Rightarrow> length guff) cs)"

definition from_included :: "githubConfig \<Rightarrow> call \<Rightarrow> bool" where
  "from_included config c =
     list_ex (\<lambda>orb. brIncluded orb \<and> brOwner orb = fst c \<and> brRepo orb = fst (snd c)) (Lists config)"

text \<open>A call asks for the open or for the closed issues of a repository.\<close>

definition open_or_closed :: "call \<Rightarrow> bool" where
  "open_or_closed c = (optState (snd (snd c)) = ''open'' \<or> optState (snd (snd c)) = ''closed'')"

text \<open>The state in which \<open>getIssues\<close> enters its loop.\<close>

definition init_state :: loop_state where
  "init_state = \<lparr>ret = [], hadRepo = (\<lambda>k. False), calls = []\<rparr>"

text \<open>
  Two configurations for the test client: one lists a repository twice and skips an
  entry that is not included, the other names a repository that the client does not
  find.
\<close>

definition report_config :: githubConfig where
  "report_config = test_config [branch ''community'' True, branch ''skipped'' False,
                                branch ''conversion'' True, branch ''community'' True]"

definition failing_config :: githubConfig where
  "failing_config = test_config [branch ''community'' True, branch ''missing'' True]"

text \<open>
  The number of entries that the map \<open>sharedLabels\<close> holds under a label name, and
  the number of occurrences of a label name on the issues of a slice, one for each
  entry of an issue's \<open>LabelNames\<close>.
\<close>

definition label_count :: "label_map \<Rightarrow> string \<Rightarrow> nat" where
  "label_count m l = (case map_of m l of None \<Rightarrow> 0 | Some rs \<Rightarrow> length rs)"

definition occurrences :: "githubIssue list \<Rightarrow> string \<Rightarrow> nat" where
  "occurrences vs l = count_list (concat (map LabelNames vs)) l"

section \<open>Properties of the backup endpoint\<close>

lemmas backup_defs = Backup_def Backup_admin_def emit_def Header_Set_def Remove_def Let_def

lemma Backup_non_admin:
  "\<not> Administrator (GetRequestContext r) \<Longrightarrow>
     Backup h r s = s\<lparr>trace := trace s @ [EvWriteForbiddenError,
        EvLogInfo (''Non-admin attempted system backup operation (user ID: '' @ UserID (GetRequestContext r) @ '')'')]\<rparr>"
  by (simp add: backup_defs)






lemma Backup_success:
  "Administrator (GetRequestContext r) \<Longrightarrow> Body r = Inr body \<Longrightarrow> Unmarshal h body = Inr spec \<Longrightarrow>
   GenerateBackup h (GetRequestContext r) spec (disk s) = (d, Inr filename) \<Longrightarrow>
   ReadFile h d filename = Inr bk \<Longrightarrow> ResponseWrite h bk = (x, None) \<Longrightarrow>
     Backup h r s = s\<lparr>disk := (if Retain spec then d else d(filename := None)),
        header := success_headers filename bk (header s),
        trace := trace s @ transfer_events body filename bk @
          [EvWriteHeader 200,
           EvLogInfo (''Backup completed for '' @ OrgID (GetRequestContext r) @ '' by ''
                        @ UserID (GetRequestContext r) @ '', size '' @ fmt_d x)] @
          (if Retain spec then [] else [EvRemove filename]) @ [EvCloseBody]\<rparr>"
  by (simp add: backup_defs success_headers_def transfer_events_def content_disposition_def)



lemma new_events_non_admin:
  "\<not> Administrator (GetRequestContext r) \<Longrightarrow>
   new_events h r s = [EvWriteForbiddenError,
        EvLogInfo (''Non-admin attempted system backup operation (user ID: '' @ UserID (GetRequestContext r) @ '')'')]"
  by (simp add: new_events_def Backup_non_admin)

text \<open>
  Claim C3. When the request context is not an administrator, \<open>Backup\<close> writes the
  forbidden response, logs, and returns: these two events are all it does, the disk
  and the response headers are untouched, the body is not read and no backup is
  generated. Conversely, a run that reads the body or generates a backup is a run of
  an administrator: the export pipeline starts only after the check has passed.
\<close>

theorem Backup_forbidden:
  "(\<not> Administrator (GetRequestContext r) \<longrightarrow>
      new_events h r s = [EvWriteForbiddenError,
        EvLogInfo (''Non-admin attempted system backup operation (user ID: ''
                     @ UserID (GetRequestContext r) @ '')'')]
      \<and> disk (Backup h r s) = disk s \<and> header (Backup h r s) = header s)
   \<and> (EvReadAll \<in> set (new_events h r s) \<or> EvGenerateBackup \<in> set (new_events h r s)
        \<longrightarrow> Administrator (GetRequestContext r))"
proof (cases "Administrator (GetRequestContext r)")
  case True
  then show ?thesis by simp
next
  case False
  then show ?thesis
    by (simp add: new_events_non_admin Backup_non_admin)
qed

lemmas fixture_defs = json_env_def admin_req_def admin_ctx_def guest_req_def fresh_def
  broken_pipe_env_def read_fault_env_def disk_full_env_def

lemma json_run:
  "Backup json_env (admin_req (Inr ''{}'')) (fresh Map.empty) =
     \<lparr>disk = Map.empty, header = success_headers ''dmz-backup.zip'' ''PK'' Map.empty,
      trace = transfer_events ''{}'' ''dmz-backup.zip'' ''PK'' @
        [EvWriteHeader 200, EvLogInfo (''Backup completed for o1 by u1, size '' @ fmt_d 2),
         EvRemove ''dmz-backup.zip'', EvCloseBody]\<rparr>"
proof -
  have "Backup json_env (admin_req (Inr ''{}'')) (fresh Map.empty) = (fresh Map.empty)
      \<lparr>disk := (if Retain \<lparr>Retain = False\<rparr> then Map.empty(''dmz-backup.zip'' \<mapsto> ''PK'')
                 else (Map.empty(''dmz-backup.zip'' \<mapsto> ''PK''))(''dmz-backup.zip'' := None)),
        header := success_headers ''dmz-backup.zip'' ''PK'' (header (fresh Map.empty)),
        trace := trace (fresh Map.empty) @ transfer_events ''{}'' ''dmz-backup.zip'' ''PK'' @
          [EvWriteHeader 200,
           EvLogInfo (''Backup completed for '' @ OrgID (GetRequestContext (admin_req (Inr ''{}''))) @ '' by ''
                        @ UserID (GetRequestContext (admin_req (Inr ''{}''))) @ '', size '' @ fmt_d 2)] @
          (if Retain \<lparr>Retain = False\<rparr> then [] else [EvRemove ''dmz-backup.zip'']) @ [EvCloseBody]\<rparr>"
    by (rule Backup_success[where body="''{}''"]) (simp_all add: fixture_defs ReadFile_def)
  then show ?thesis by (simp add: fixture_defs)
qed

theorem Backup_forbidden_witness:
  "\<not> Administrator (GetRequestContext guest_req)
   \<and> new_events json_env guest_req (fresh Map.empty) =
       [EvWriteForbiddenError, EvLogInfo ''Non-admin attempted system backup operation (user ID: u2)'']
   \<and> disk (Backup json_env guest_req (fresh Map.empty)) = Map.empty
   \<and> EvGenerateBackup \<in> set (new_events json_env (admin_req (Inr ''{}'')) (fresh Map.empty))
   \<and> Administrator (GetRequestContext (admin_req (Inr ''{}'')))"
proof -
  have g: "\<not> Administrator (GetRequestContext guest_req)"
    by (simp add: guest_req_def)
  have a: "EvGenerateBackup \<in> set (new_events json_env (admin_req (Inr ''{}'')) (fresh Map.empty))"
    by (simp add: new_events_def json_run transfer_events_def) (simp add: fresh_def)
  from Backup_forbidden [of guest_req json_env "fresh Map.empty"] g
  have 1: "new_events json_env guest_req (fresh Map.empty) =
       [EvWriteForbiddenError, EvLogInfo (''Non-admin attempted system backup operation (user ID: '' @ UserID (GetRequestContext guest_req) @ '')'')]"
    and 2: "disk (Backup json_env guest_req (fresh Map.empty)) = disk (fresh Map.empty)"
    by simp_all
  from Backup_forbidden [of "admin_req (Inr ''{}'')" json_env "fresh Map.empty"] a
  have 3: "Administrator (GetRequestContext (admin_req (Inr ''{}'')))" by simp
  from g a 1 2 3 show ?thesis by (simp add: guest_req_def fresh_def)
qed


text \<open>
  Claim C2. On every successful transfer (administrator, body read, specification
  parsed, backup generated, archive read, response written without error) the handler
  reaches \<open>WriteHeader(200)\<close> with the response headers \<open>Content-Type:
  application/zip\<close>, a \<open>Content-Disposition\<close> that starts with \<open>attachment\<close> and
  contains the file name, and \<open>x-documize-filename\<close> equal to the file name.
\<close>

theorem Backup_success_headers:
  assumes "Administrator (GetRequestContext r)"
    and "Body r = Inr body"
    and "Unmarshal h body = Inr spec"
    and "GenerateBackup h (GetRequestContext r) spec (disk s) = (d, Inr filename)"
    and "ReadFile h d filename = Inr bk"
    and "ResponseWrite h bk = (x, None)"
  shows "EvWriteHeader 200 \<in> set (new_events h r s)
    \<and> header (Backup h r s) ''Content-Type'' = Some ''application/zip''
    \<and> header (Backup h r s) ''Content-Disposition'' = Some (content_disposition filename)
    \<and> prefix ''attachment'' (content_disposition filename)
    \<and> sublist filename (content_disposition filename)
    \<and> header (Backup h r s) ''x-documize-filename'' = Some filename"
proof -
  note run = Backup_success [OF assms]
  have ev: "EvWriteHeader 200 \<in> set (new_events h r s)"
    by (simp add: new_events_def run)
  have pre: "prefix ''attachment'' (content_disposition filename)"
    by (simp add: content_disposition_def)
  have "content_disposition filename =
      ''attachment; filename=\"'' @ filename @ (''\" ; '' @ ''filename*=\"'' @ filename @ ''\"'')"
    by (simp add: content_disposition_def)
  then have sub: "sublist filename (content_disposition filename)"
    unfolding sublist_def by blast
  show ?thesis
    using ev pre sub by (simp add: run success_headers_def)
qed

lemma json_env_facts:
  "Administrator (GetRequestContext (admin_req b))"
  "Body (admin_req b) = b"
  "Unmarshal json_env ''{}'' = Inr \<lparr>Retain = False\<rparr>"
  "Unmarshal json_env ''{\"retain\":true}'' = Inr \<lparr>Retain = True\<rparr>"
  "Unmarshal json_env ''{'' = Inl (Error ''unexpected end of JSON input'')"
  "GenerateBackup json_env c sp Map.empty = (Map.empty(''dmz-backup.zip'' \<mapsto> ''PK''), Inr ''dmz-backup.zip'')"
  "ReadFile json_env (Map.empty(''dmz-backup.zip'' \<mapsto> ''PK'')) ''dmz-backup.zip'' = Inr ''PK''"
  "ResponseWrite json_env ''PK'' = (2, None)"
  "disk (fresh d) = d" "trace (fresh d) = []" "header (fresh d) = Map.empty"
  by (simp_all add: fixture_defs ReadFile_def)

theorem Backup_success_headers_witness:
  "Administrator (GetRequestContext (admin_req (Inr ''{}'')))
   \<and> Unmarshal json_env ''{}'' = Inr \<lparr>Retain = False\<rparr>
   \<and> ReadFile json_env (Map.empty(''dmz-backup.zip'' \<mapsto> ''PK'')) ''dmz-backup.zip'' = Inr ''PK''
   \<and> ResponseWrite json_env ''PK'' = (2, None)
   \<and> EvWriteHeader 200 \<in> set (new_events json_env (admin_req (Inr ''{}'')) (fresh Map.empty))
   \<and> header (Backup json_env (admin_req (Inr ''{}'')) (fresh Map.empty)) ''Content-Type''
        = Some ''application/zip''
   \<and> header (Backup json_env (admin_req (Inr ''{}'')) (fresh Map.empty)) ''Content-Disposition''
        = Some ''attachment; filename=\"dmz-backup.zip\" ; filename*=\"dmz-backup.zip\"''
   \<and> header (Backup json_env (admin_req (Inr ''{}'')) (fresh Map.empty)) ''x-documize-filename''
        = Some ''dmz-backup.zip''"
proof -
  have g: "GenerateBackup json_env (GetRequestContext (admin_req (Inr ''{}''))) \<lparr>Retain = False\<rparr>
             (disk (fresh Map.empty)) = (Map.empty(''dmz-backup.zip'' \<mapsto> ''PK''), Inr ''dmz-backup.zip'')"
    by (simp add: json_env_facts)
  from Backup_success_headers [OF json_env_facts(1) json_env_facts(2) json_env_facts(3) g
      json_env_facts(7) json_env_facts(8)]
  show ?thesis
    by (simp add: json_env_facts content_disposition_def)
qed













section \<open>Properties of the issues report\<close>

lemma issue_less_key: "issue_less p a b \<longleftrightarrow> issue_key p a < issue_key p b"
  by (auto simp: issue_less_def issue_key_def Let_def)


lemma mset_sift: "mset (sift lt x ys) = add_mset x (mset ys)"
  by (induction ys) auto

lemma set_sift: "set (sift lt x ys) = insert x (set ys)"
  by (induction ys) auto

lemma mset_foldl_sift: "mset (foldl (\<lambda>front x. sift lt x front) acc xs) = mset acc + mset xs"
  by (induction xs arbitrary: acc) (auto simp: mset_sift)

lemma mset_sort_Sort: "mset (sort_Sort lt xs) = mset xs"
  by (simp add: sort_Sort_def mset_foldl_sift)

lemma sift_descending:
  fixes key :: "'a \<Rightarrow> 'k::linorder"
  assumes "\<And>a b. lt a b \<longleftrightarrow> key a < key b"
    and "sorted_wrt (\<lambda>a b. key b \<le> key a) ys"
  shows "sorted_wrt (\<lambda>a b. key b \<le> key a) (sift lt x ys)"
  using assms(2)
proof (induction ys)
  case Nil
  then show ?case by simp
next
  case (Cons y ys)
  show ?case
  proof (cases "lt x y")
    case True
    then have "key x \<le> key y" using assms(1) by simp
    with Cons True show ?thesis by (auto simp: set_sift)
  next
    case False
    then have "key y \<le> key x" using assms(1) by (simp add: not_less)
    with Cons False show ?thesis by auto
  qed
qed

lemma foldl_sift_descending:
  fixes key :: "'a \<Rightarrow> 'k::linorder"
  assumes "\<And>a b. lt a b \<longleftrightarrow> key a < key b"
    and "sorted_wrt (\<lambda>a b. key b \<le> key a) acc"
  shows "sorted_wrt (\<lambda>a b. key b \<le> key a) (foldl (\<lambda>front x. sift lt x front) acc xs)"
  using assms(2)
proof (induction xs arbitrary: acc)
  case Nil
  then show ?case by simp
next
  case (Cons x xs)
  have "sorted_wrt (\<lambda>a b. key b \<le> key a) (sift lt x acc)"
    by (rule sift_descending [where key = key, OF assms(1) Cons.prems])
  from Cons.IH [OF this] show ?case by simp
qed

lemma sort_Sort_ascending:
  fixes key :: "'a \<Rightarrow> 'k::linorder"
  assumes "\<And>a b. lt a b \<longleftrightarrow> key a < key b"
  shows "sorted_wrt (\<lambda>a b. key a \<le> key b) (sort_Sort lt xs)"
proof -
  have "sorted_wrt (\<lambda>a b. key b \<le> key a) (foldl (\<lambda>front x. sift lt x front) [] xs)"
    by (rule foldl_sift_descending [where key = key, OF assms]) simp
  then show ?thesis
    by (simp add: sort_Sort_def sorted_wrt_rev)
qed

lemma sort_Sort_not_less:
  fixes key :: "'a \<Rightarrow> 'k::linorder"
  assumes "\<And>a b. lt a b \<longleftrightarrow> key a < key b"
  shows "sorted_wrt (\<lambda>a b. \<not> lt b a) (sort_Sort lt xs)"
proof -
  have "(\<lambda>a b. \<not> lt b a) = (\<lambda>a b. key a \<le> key b)"
    by (simp add: assms not_less)
  then show ?thesis
    using sort_Sort_ascending [where key = key, OF assms, of xs] by simp
qed



lemma fetched_append: "fetched cl (cs @ ds) = fetched cl cs + fetched cl ds"
  by (simp add: fetched_def)

lemma append_rows_length:
  "append_rows p orb rName guff rows = Returned rows' \<Longrightarrow> length rows' = length rows + length guff"
  by (induction guff arbitrary: rows) (auto split: go_result.splits)

lemma states_loop_hadRepo:
  "states_loop p cl config orb rName states st = (f, st') \<Longrightarrow> hadRepo st' = hadRepo st"
  by (induction states arbitrary: st) (auto simp: Let_def split: sum.splits go_result.splits)

lemma states_loop_calls:
  "states_loop p cl config orb rName states st = (f, st') \<Longrightarrow>
     \<exists>k \<le> length states. calls st' =
        calls st @ map (\<lambda>s. (brOwner orb, brRepo orb, list_opts config s)) (take k states)"
proof (induction states arbitrary: st)
  case Nil
  then show ?case by simp
next
  case (Cons s states)
  let ?c = "(brOwner orb, brRepo orb, list_opts config s)"
  let ?st1 = "st\<lparr>calls := calls st @ [?c]\<rparr>"
  show ?case
  proof (cases "cl (brOwner orb) (brRepo orb) (list_opts config s)")
    case (Inl err)
    with Cons.prems have "calls st' = calls st @ [?c]" by (auto simp: Let_def)
    then have "calls st' = calls st @ map (\<lambda>s. (brOwner orb, brRepo orb, list_opts config s)) (take 1 (s # states))"
      by simp
    then show ?thesis by (intro exI [of _ 1]) simp
  next
    case (Inr guff)
    show ?thesis
    proof (cases "append_rows p orb rName guff (ret ?st1)")
      case Panicked
      with Inr Cons.prems have "calls st' = calls st @ [?c]" by (auto simp: Let_def)
      then have "calls st' = calls st @ map (\<lambda>s. (brOwner orb, brRepo orb, list_opts config s)) (take 1 (s # states))"
        by simp
      then show ?thesis by (intro exI [of _ 1]) simp
    next
      case (Returned rows)
      with Inr Cons.prems
      have "states_loop p cl config orb rName states (?st1\<lparr>ret := rows\<rparr>) = (f, st')"
        by (simp add: Let_def)
      from Cons.IH [OF this] obtain k where "k \<le> length states"
        and "calls st' = calls (?st1\<lparr>ret := rows\<rparr>)
               @ map (\<lambda>s. (brOwner orb, brRepo orb, list_opts config s)) (take k states)"
        by blast
      then have "Suc k \<le> length (s # states)"
        and "calls st' = calls st
               @ map (\<lambda>s. (brOwner orb, brRepo orb, list_opts config s)) (take (Suc k) (s # states))"
        by simp_all
      then show ?thesis by blast
    qed
  qed
qed

lemma states_loop_fetched:
  "states_loop p cl config orb rName states st = (f, st') \<Longrightarrow> f \<noteq> Panic \<Longrightarrow>
     length (ret st') + fetched cl (calls st) = length (ret st) + fetched cl (calls st')"
proof (induction states arbitrary: st)
  case Nil
  then show ?case by simp
next
  case (Cons s states)
  let ?c = "(brOwner orb, brRepo orb, list_opts config s)"
  let ?st1 = "st\<lparr>calls := calls st @ [?c]\<rparr>"
  show ?case
  proof (cases "cl (brOwner orb) (brRepo orb) (list_opts config s)")
    case (Inl err)
    with Cons.prems have "st' = ?st1" by (auto simp: Let_def)
    with Inl show ?thesis by (simp add: fetched_append) (simp add: fetched_def)
  next
    case (Inr guff)
    show ?thesis
    proof (cases "append_rows p orb rName guff (ret ?st1)")
      case Panicked
      with Inr Cons.prems show ?thesis by (auto simp: Let_def)
    next
      case (Returned rows)
      with Inr Cons.prems
      have run: "states_loop p cl config orb rName states (?st1\<lparr>ret := rows\<rparr>) = (f, st')"
        by (simp add: Let_def)
      have len: "length rows = length (ret st) + length guff"
        using append_rows_length [OF Returned] by simp
      have "fetched cl (calls (?st1\<lparr>ret := rows\<rparr>)) = fetched cl (calls st) + length guff"
        using Inr by (simp add: fetched_append) (simp add: fetched_def)
      with Cons.IH [OF run Cons.prems(2)] len show ?thesis by simp
    qed
  qed
qed


lemma lists_loop_fetch:
  assumes "brIncluded orb" and "\<not> hadRepo st (brOwner orb @ ''/'' @ brRepo orb)"
    and "states_loop p cl config orb (brOwner orb @ ''/'' @ brRepo orb) [''open'', ''closed''] st = (f1, st1)"
  shows "lists_loop p cl config (orb # rest) st =
     (if f1 = Continue then
        lists_loop p cl config rest
          (st1\<lparr>hadRepo := (hadRepo st1)((brOwner orb @ ''/'' @ brRepo orb) := True)\<rparr>)
      else (f1, st1))"
  using assms by (cases f1) (simp_all add: Let_def)

lemma lists_loop_seen:
  assumes "brIncluded orb" and "hadRepo st (brOwner orb @ ''/'' @ brRepo orb)"
  shows "lists_loop p cl config (orb # rest) st =
     lists_loop p cl config rest
       (st\<lparr>hadRepo := (hadRepo st)((brOwner orb @ ''/'' @ brRepo orb) := True)\<rparr>)"
  using assms by (simp add: Let_def)

lemma lists_loop_skip:
  "\<not> brIncluded orb \<Longrightarrow> lists_loop p cl config (orb # rest) st = lists_loop p cl config rest st"
  by simp

lemma from_included_member:
  "orb \<in> set (Lists config) \<Longrightarrow> brIncluded orb \<Longrightarrow>
     from_included config (brOwner orb, brRepo orb, opts)"
  by (auto simp: from_included_def list_ex_iff)

lemma optState_list_opts: "optState (list_opts config s) = s"
  by (simp add: list_opts_def)

lemma lists_loop_inv:
  assumes "lists_loop p cl config bs st = (f, st')"
    and "set bs \<subseteq> set (Lists config)"
    and "\<forall>c \<in> set (calls st). from_included config c"
    and "distinct (map call_key (calls st))"
    and "\<forall>c \<in> set (calls st). hadRepo st (call_rName c)"
    and "length (ret st) = fetched cl (calls st)"
  shows "(\<forall>c \<in> set (calls st'). from_included config c)
       \<and> distinct (map call_key (calls st'))
       \<and> (f \<noteq> Panic \<longrightarrow> length (ret st') = fetched cl (calls st'))"
  using assms
proof (induction bs arbitrary: st)
  case Nil
  then show ?case by simp
next
  case (Cons orb rest)
  let ?rName = "brOwner orb @ ''/'' @ brRepo orb"
  have orb: "orb \<in> set (Lists config)" and rest: "set rest \<subseteq> set (Lists config)"
    using Cons.prems(2) by auto
  show ?case
  proof (cases "brIncluded orb")
    case False
    from Cons.prems(1) have "lists_loop p cl config rest st = (f, st')"
      by (simp only: lists_loop_skip [OF False])
    from Cons.IH [OF this rest Cons.prems(3-6)] show ?thesis .
  next
    case inc: True
    show ?thesis
    proof (cases "hadRepo st ?rName")
      case True
      let ?st = "st\<lparr>hadRepo := (hadRepo st)(?rName := True)\<rparr>"
      from Cons.prems(1) have run: "lists_loop p cl config rest ?st = (f, st')"
        by (simp only: lists_loop_seen [OF inc True])
      have "\<forall>c \<in> set (calls ?st). hadRepo ?st (call_rName c)"
        using Cons.prems(5) by simp
      with Cons.IH [OF run rest] Cons.prems(3,4,6) show ?thesis by simp
    next
      case False
      obtain f1 st1 where sl: "states_loop p cl config orb ?rName [''open'', ''closed''] st = (f1, st1)"
        by (cases "states_loop p cl config orb ?rName [''open'', ''closed''] st")
      from states_loop_calls [OF sl] obtain k where
        cs: "calls st1 = calls st @ map (\<lambda>s. (brOwner orb, brRepo orb, list_opts config s))
                (take k [''open'', ''closed''])"
        by blast
      let ?new = "map (\<lambda>s. (brOwner orb, brRepo orb, list_opts config s)) (take k [''open'', ''closed''])"
      have hr: "hadRepo st1 = hadRepo st" by (rule states_loop_hadRepo [OF sl])
      have new_inc: "\<forall>c \<in> set ?new. from_included config c"
        using from_included_member [OF orb inc] by auto
      have new_name: "\<forall>c \<in> set ?new. call_rName c = ?rName"
        by (auto simp: call_rName_def)
      have "distinct (take k [''open'', ''closed''])"
        by (rule distinct_take) simp
      moreover have "map call_key ?new = map (\<lambda>s. (brOwner orb, brRepo orb, s)) (take k [''open'', ''closed''])"
        by (simp add: call_key_def optState_list_opts)
      ultimately have new_dist: "distinct (map call_key ?new)"
        by (simp add: distinct_map inj_on_def)
      have disjoint: "set (map call_key (calls st)) \<inter> set (map call_key ?new) = {}"
      proof (rule ccontr)
        assume "set (map call_key (calls st)) \<inter> set (map call_key ?new) \<noteq> {}"
        then obtain key where k1: "key \<in> call_key ` set (calls st)"
          and k2: "key \<in> call_key ` set ?new"
          unfolding set_map by blast
        from k1 obtain c where c: "c \<in> set (calls st)" and kc: "key = call_key c"
          by (rule imageE)
        from k2 obtain d where d: "d \<in> set ?new" and kd: "key = call_key d"
          by (rule imageE)
        from kc kd have eq: "call_key c = call_key d" by simp
        from eq have "call_rName c = call_rName d"
          by (simp add: call_key_def call_rName_def)
        moreover from d new_name have "call_rName d = ?rName" by blast
        ultimately have "call_rName c = ?rName" by simp
        with c Cons.prems(5) have "hadRepo st ?rName" by auto
        with False show False by simp
      qed
      have inc1: "\<forall>c \<in> set (calls st1). from_included config c"
        using Cons.prems(3) new_inc by (auto simp: cs)
      have dist1: "distinct (map call_key (calls st1))"
        using Cons.prems(4) new_dist disjoint by (simp add: cs)
      have len1: "f1 \<noteq> Panic \<Longrightarrow> length (ret st1) = fetched cl (calls st1)"
        using states_loop_fetched [OF sl] Cons.prems(6) by simp
      show ?thesis
      proof (cases "f1 = Continue")
        case True
        let ?st = "st1\<lparr>hadRepo := (hadRepo st1)(?rName := True)\<rparr>"
        from Cons.prems(1) True have run: "lists_loop p cl config rest ?st = (f, st')"
          by (simp only: lists_loop_fetch [OF inc False sl] if_True simp_thms)
        have had: "\<forall>c \<in> set (calls ?st). hadRepo ?st (call_rName c)"
          using Cons.prems(5) new_name by (auto simp: cs hr)
        have "length (ret ?st) = fetched cl (calls ?st)"
          using len1 True by simp
        with Cons.IH [OF run rest] inc1 dist1 had show ?thesis by simp
      next
        case False
        with Cons.prems(1) have "(f1, st1) = (f, st')"
          by (simp only: lists_loop_fetch [OF inc \<open>\<not> hadRepo st ?rName\<close> sl] if_False simp_thms)
        then have "f = f1" and "st' = st1" by simp_all
        with inc1 dist1 len1 show ?thesis by simp
      qed
    qed
  qed
qed

lemma getIssues_loop:
  assumes "lists_loop p cl config (Lists config) init_state = (f, st)"
  shows "(\<forall>c \<in> set (calls st). from_included config c)
       \<and> distinct (map call_key (calls st))
       \<and> (f \<noteq> Panic \<longrightarrow> length (ret st) = fetched cl (calls st))"
  by (rule lists_loop_inv [OF assms]) (simp_all add: init_state_def fetched_def)

lemma getIssues_unfold:
  "getIssues p cl config =
     (case lists_loop p cl config (Lists config) init_state of
        (Continue, st) \<Rightarrow> (calls st, Returned (sort_Sort (issue_less p) (ret st), None))
      | (ReturnErr err, st) \<Rightarrow> (calls st, Returned (ret st, Some err))
      | (Panic, st) \<Rightarrow> (calls st, Panicked))"
  by (simp add: getIssues_def init_state_def)

lemma getIssues_cases:
  assumes "getIssues p cl config = (cs, res)"
  obtains st where "lists_loop p cl config (Lists config) init_state = (Continue, st)"
      and "cs = calls st" and "res = Returned (sort_Sort (issue_less p) (ret st), None)"
  | err st where "lists_loop p cl config (Lists config) init_state = (ReturnErr err, st)"
      and "cs = calls st" and "res = Returned (ret st, Some err)"
  | st where "lists_loop p cl config (Lists config) init_state = (Panic, st)"
      and "cs = calls st" and "res = Panicked"
proof -
  obtain f st where l: "lists_loop p cl config (Lists config) init_state = (f, st)"
    by (cases "lists_loop p cl config (Lists config) init_state")
  show thesis
    using assms l that by (cases f) (auto simp: getIssues_unfold)
qed

lemma states_loop_open_or_closed:
  assumes "states_loop p cl config orb rName [''open'', ''closed''] st = (f, st')"
    and "\<forall>c \<in> set (calls st). open_or_closed c"
  shows "\<forall>c \<in> set (calls st'). open_or_closed c"
proof
  fix c assume c: "c \<in> set (calls st')"
  from states_loop_calls [OF assms(1)] obtain k where
    "calls st' = calls st @ map (\<lambda>s. (brOwner orb, brRepo orb, list_opts config s))
        (take k [''open'', ''closed''])" by blast
  with c consider "c \<in> set (calls st)"
    | s where "s \<in> set (take k [''open'', ''closed''])"
        and "c = (brOwner orb, brRepo orb, list_opts config s)"
    by auto
  then show "open_or_closed c"
  proof cases
    case 1
    with assms(2) show ?thesis by blast
  next
    case 2
    from 2(1) have "s \<in> set [''open'', ''closed'']" by (rule in_set_takeD)
    then have "s = ''open'' \<or> s = ''closed''" by simp
    with 2(2) show ?thesis
      by (simp add: open_or_closed_def optState_list_opts)
  qed
qed

lemma lists_loop_open_or_closed:
  assumes "lists_loop p cl config bs st = (f, st')"
    and "\<forall>c \<in> set (calls st). open_or_closed c"
  shows "\<forall>c \<in> set (calls st'). open_or_closed c"
  using assms
proof (induction bs arbitrary: st)
  case Nil
  then show ?case by simp
next
  case (Cons orb rest)
  let ?rName = "brOwner orb @ ''/'' @ brRepo orb"
  show ?case
  proof (cases "brIncluded orb")
    case False
    from Cons.prems(1) have "lists_loop p cl config rest st = (f, st')"
      by (simp only: lists_loop_skip [OF False])
    from Cons.IH [OF this Cons.prems(2)] show ?thesis .
  next
    case inc: True
    show ?thesis
    proof (cases "hadRepo st ?rName")
      case True
      let ?st = "st\<lparr>hadRepo := (hadRepo st)(?rName := True)\<rparr>"
      from Cons.prems(1) have run: "lists_loop p cl config rest ?st = (f, st')"
        by (simp only: lists_loop_seen [OF inc True])
      have "\<forall>c \<in> set (calls ?st). open_or_closed c"
        using Cons.prems(2) by simp
      from Cons.IH [OF run this] show ?thesis .
    next
      case False
      obtain f1 st1 where sl: "states_loop p cl config orb ?rName [''open'', ''closed''] st = (f1, st1)"
        by (cases "states_loop p cl config orb ?rName [''open'', ''closed''] st")
      have oc1: "\<forall>c \<in> set (calls st1). open_or_closed c"
        by (rule states_loop_open_or_closed [OF sl Cons.prems(2)])
      show ?thesis
      proof (cases "f1 = Continue")
        case True
        let ?st = "st1\<lparr>hadRepo := (hadRepo st1)(?rName := True)\<rparr>"
        from Cons.prems(1) True have run: "lists_loop p cl config rest ?st = (f, st')"
          by (simp only: lists_loop_fetch [OF inc False sl] if_True simp_thms)
        have "\<forall>c \<in> set (calls ?st). open_or_closed c"
          using oc1 by simp
        from Cons.IH [OF run this] show ?thesis .
      next
        case nc: False
        with Cons.prems(1) have "(f1, st1) = (f, st')"
          by (simp only: lists_loop_fetch [OF inc False sl] if_False simp_thms)
        with oc1 show ?thesis by simp
      qed
    qed
  qed
qed

lemma getIssues_open_or_closed:
  assumes "getIssues p cl config = (cs, res)"
  shows "\<forall>c \<in> set cs. open_or_closed c"
proof -
  have start: "\<forall>c \<in> set (calls init_state). open_or_closed c"
    by (simp add: init_state_def)
  from assms show ?thesis
  proof (cases rule: getIssues_cases)
    case (1 st)
    with lists_loop_open_or_closed [OF 1(1) start] show ?thesis by simp
  next
    case (2 err st)
    with lists_loop_open_or_closed [OF 2(1) start] show ?thesis by simp
  next
    case (3 st)
    with lists_loop_open_or_closed [OF 3(1) start] show ?thesis by simp
  qed
qed

text \<open>
  Claim C9, as \<open>getIssues\<close> implements it. Every call on the client is for the
  repository of an included list entry and asks for its open or for its closed
  issues; no repository is asked twice for the same state, however often it is
  listed; and when \<open>getIssues\<close> returns without error, the slice it returns is
  ordered by the comparator of \<open>issuesToSort\<close> and holds as many rows as the calls
  fetched issues.
\<close>

theorem getIssues_fetches_included_once:
  assumes "getIssues p cl config = (cs, res)"
  shows "(\<forall>c \<in> set cs. from_included config c \<and> open_or_closed c)
       \<and> distinct (map call_key cs)
       \<and> (\<forall>issues. res = Returned (issues, None) \<longrightarrow>
            sorted_wrt (\<lambda>a b. \<not> issue_less p b a) issues
          \<and> length issues = fetched cl cs)"
proof -
  note oc = getIssues_open_or_closed [OF assms]
  have sorted: "sorted_wrt (\<lambda>a b. \<not> issue_less p b a) (sort_Sort (issue_less p) xs)" for xs
    by (rule sort_Sort_not_less [where key = "issue_key p"]) (rule issue_less_key)
  have len: "length (sort_Sort (issue_less p) xs) = length xs" for xs
    using mset_sort_Sort [of "issue_less p" xs] by (metis size_mset)
  from assms show ?thesis
  proof (cases rule: getIssues_cases)
    case (1 st)
    with getIssues_loop [OF 1(1)] sorted len oc show ?thesis by simp
  next
    case (2 err st)
    with getIssues_loop [OF 2(1)] oc show ?thesis by simp
  next
    case (3 st)
    with getIssues_loop [OF 3(1)] oc show ?thesis by simp
  qed
qed


lemma report_run:
  "case getIssues test_pkg test_client report_config of
     (cs, Returned (issues, None)) \<Rightarrow>
        map call_key cs = [(''documize'', ''community'', ''open''), (''documize'', ''community'', ''closed''),
                           (''documize'', ''conversion'', ''open''), (''documize'', ''conversion'', ''closed'')]
        \<and> map ID issues = [2, 3, 1]
   | _ \<Rightarrow> False"
  by code_simp

text \<open>
  Against claim C9 as it stands: when the client fails on the second repository,
  \<open>getIssues\<close> returns the rows gathered so far together with the error, in the
  order of arrival. Here an issue without milestone stands before one with a
  milestone.
\<close>

theorem getIssues_error_returns_unsorted:
  "case getIssues test_pkg test_client failing_config of
     (cs, Returned (issues, Some err)) \<Rightarrow>
        err = Error ''404 Not Found'' \<and> map ID issues = [1, 2]
        \<and> issue_less test_pkg (issues ! 1) (issues ! 0)
        \<and> \<not> sorted_wrt (\<lambda>a b. \<not> issue_less test_pkg b a) issues
   | _ \<Rightarrow> False"
  by code_simp


theorem getIssues_fetches_included_once_witness:
  "list_all (from_included report_config) (fst (getIssues test_pkg test_client report_config))
   \<and> list_all open_or_closed (fst (getIssues test_pkg test_client report_config))
   \<and> distinct (map call_key (fst (getIssues test_pkg test_client report_config)))
   \<and> (\<exists>issues. snd (getIssues test_pkg test_client report_config) = Returned (issues, None)
        \<and> map ID issues = [2, 3, 1]
        \<and> sorted_wrt (\<lambda>a b. \<not> issue_less test_pkg b a) issues
        \<and> length issues = fetched test_client (fst (getIssues test_pkg test_client report_config)))"
proof -
  obtain cs res where run: "getIssues test_pkg test_client report_config = (cs, res)"
    by (cases "getIssues test_pkg test_client report_config")
  with report_run obtain issues where res: "res = Returned (issues, None)"
    and ids: "map ID issues = [2, 3, 1]"
    by (auto split: go_result.splits option.splits)
  from getIssues_fetches_included_once [OF run] res ids
  show ?thesis
    by (simp add: run list_all_iff)
qed

lemma map_of_map_append:
  "map_of (map_append lab r m) =
     (map_of m)(lab \<mapsto> (case map_of m lab of None \<Rightarrow> [r] | Some rs \<Rightarrow> rs @ [r]))"
  by (induction m) (auto simp: fun_eq_iff)

lemma keys_map_append: "set (map fst (map_append lab r m)) = insert lab (set (map fst m))"
  by (induction lab r m rule: map_append.induct) auto

lemma distinct_map_append:
  "distinct (map fst m) \<Longrightarrow> distinct (map fst (map_append lab r m))"
proof (induction m)
  case Nil
  then show ?case by simp
next
  case (Cons kv m)
  obtain k rs where kv: "kv = (k, rs)" by (cases kv)
  show ?case
  proof (cases "k = lab")
    case True
    with Cons kv show ?thesis by simp
  next
    case False
    have "k \<notin> set (map fst (map_append lab r m))"
      using Cons.prems False kv by (simp only: keys_map_append) auto
    with Cons kv False show ?thesis by simp
  qed
qed

lemma label_count_map_append:
  "label_count (map_append lab r m) l = label_count m l + (if l = lab then 1 else 0)"
  by (simp add: label_count_def map_of_map_append split: option.splits)

lemma distinct_labels_loop:
  "distinct (map fst m) \<Longrightarrow> distinct (map fst (labels_loop labs repo m))"
  by (induction labs arbitrary: m) (simp_all add: distinct_map_append)

lemma label_count_labels_loop:
  "label_count (labels_loop labs repo m) l = label_count m l + count_list labs l"
  by (induction labs arbitrary: m) (simp_all add: label_count_map_append)

lemma issues_loop_inv:
  assumes "issues_loop vs (gr, m) = (gr', m')"
  shows "(distinct (map fst m) \<longrightarrow> distinct (map fst m'))
       \<and> (\<forall>l. label_count m' l = label_count m l + occurrences vs l)
       \<and> OpenIssues gr' + ClosedIssues gr' = OpenIssues gr + ClosedIssues gr + int (length vs)
       \<and> Issues gr' = Issues gr"
  using assms
proof (induction vs arbitrary: gr m)
  case Nil
  then show ?case by (simp add: occurrences_def)
next
  case (Cons v vs)
  let ?gr = "if IsOpen v then gr\<lparr>OpenIssues := OpenIssues gr + 1\<rparr>
             else gr\<lparr>ClosedIssues := ClosedIssues gr + 1\<rparr>"
  let ?m = "labels_loop (LabelNames v) (Repo v) m"
  from Cons.prems have "issues_loop vs (?gr, ?m) = (gr', m')" by simp
  from Cons.IH [OF this]
  have d: "distinct (map fst ?m) \<longrightarrow> distinct (map fst m')"
    and c: "\<forall>l. label_count m' l = label_count ?m l + occurrences vs l"
    and n: "OpenIssues gr' + ClosedIssues gr' = OpenIssues ?gr + ClosedIssues ?gr + int (length vs)"
    and i: "Issues gr' = Issues ?gr"
    by blast+
  have "distinct (map fst m) \<longrightarrow> distinct (map fst m')"
    using d distinct_labels_loop by blast
  moreover have "\<forall>l. label_count m' l = label_count m l + occurrences (v # vs) l"
    using c by (simp add: label_count_labels_loop occurrences_def)
  moreover have "OpenIssues gr' + ClosedIssues gr' = OpenIssues gr + ClosedIssues gr + int (length (v # vs))"
    using n by simp
  moreover have "Issues gr' = Issues gr"
    using i by simp
  ultimately show ?case by blast
qed

lemma shared_loop_names:
  "map slName (shared_loop config m out) =
     map slName out @ map fst (filter (\<lambda>kv. 1 < length (snd kv)) m)"
  by (induction m arbitrary: out) auto

lemma shared_loop_counts:
  "sl \<in> set (shared_loop config m out) \<Longrightarrow>
     sl \<in> set out \<or> (\<exists>rs. (slName sl, rs) \<in> set m \<and> slCount sl = int (length rs))"
proof (induction config m out rule: shared_loop.induct)
  case (1 config out)
  then show ?case by simp
next
  case (2 config name repos m out)
  show ?case
  proof (cases "1 < length repos")
    case True
    let ?new = "\<lparr>slName = name, slCount = int (length repos),
                 slRepos = show_loop (cfgOwner config) name 0 repos []\<rparr>"
    from 2(3) True have "sl \<in> set (shared_loop config m (out @ [?new]))" by simp
    from 2(1) [OF True this]
    consider "sl \<in> set out" | "sl = ?new"
      | "\<exists>rs. (slName sl, rs) \<in> set m \<and> slCount sl = int (length rs)"
      by auto
    then show ?thesis
    proof cases
      case 1
      then show ?thesis by simp
    next
      case 2
      then have "(slName sl, repos) \<in> set ((name, repos) # m)"
        and "slCount sl = int (length repos)" by simp_all
      then show ?thesis by blast
    next
      case 3
      then show ?thesis by auto
    qed
  next
    case False
    with 2(3) have "sl \<in> set (shared_loop config m out)" by simp
    from 2(2) [OF False this] show ?thesis by auto
  qed
qed

lemma label_count_distinct:
  "distinct (map fst m) \<Longrightarrow> (k, rs) \<in> set m \<Longrightarrow> label_count m k = length rs"
  by (simp add: label_count_def)

lemma shared_names_set:
  assumes "distinct (map fst m)"
  shows "set (map fst (filter (\<lambda>kv. 1 < length (snd kv)) m)) = {l. 1 < label_count m l}"
proof (intro set_eqI iffI)
  fix l assume "l \<in> set (map fst (filter (\<lambda>kv. 1 < length (snd kv)) m))"
  then obtain rs where "(l, rs) \<in> set m" and "1 < length rs" by auto
  with assms show "l \<in> {l. 1 < label_count m l}"
    by (simp add: label_count_distinct)
next
  fix l assume "l \<in> {l. 1 < label_count m l}"
  then have "1 < label_count m l" by simp
  then obtain rs where "map_of m l = Some rs" and "1 < length rs"
    by (auto simp: label_count_def split: option.splits)
  then have "(l, rs) \<in> set m" by (auto dest: map_of_SomeD)
  with \<open>1 < length rs\<close> show "l \<in> set (map fst (filter (\<lambda>kv. 1 < length (snd kv)) m))"
    by force
qed

lemma count_list_distinct:
  "distinct xs \<Longrightarrow> count_list xs l = (if l \<in> set xs then 1 else 0)"
  by (induction xs) auto

lemma occurrences_distinct:
  "\<forall>v \<in> set vs. distinct (LabelNames v) \<Longrightarrow>
     occurrences vs l = length (filter (\<lambda>v. l \<in> set (LabelNames v)) vs)"
  by (induction vs) (auto simp: occurrences_def count_list_distinct)


lemma label_less_key: "label_less a b \<longleftrightarrow> slName a < slName b"
  by (simp add: label_less_def)

lemma length_sort_Sort: "length (sort_Sort lt xs) = length xs"
  using mset_sort_Sort [of lt xs] by (metis size_mset)

lemma getIssues_fetches_length:
  assumes "getIssues p cl config = (cs, Returned (issues, None))"
  shows "length issues = fetched cl cs"
  using assms
proof (cases rule: getIssues_cases)
  case (1 st)
  with getIssues_loop [OF 1(1)] show ?thesis by (simp add: length_sort_Sort)
next
  case (2 err st)
  then show ?thesis by simp
next
  case (3 st)
  then show ?thesis by simp
qed

lemma refreshIssues_ok:
  assumes "refreshIssues p gr config cl = (cs, Returned (gr', None))"
  obtains issues gr2 m where "getIssues p cl config = (cs, Returned (issues, None))"
    and "issues_loop issues (gr\<lparr>Issues := issues, OpenIssues := 0, ClosedIssues := 0\<rparr>, []) = (gr2, m)"
    and "gr' = gr2\<lparr>HasIssues := (OpenIssues gr2 + ClosedIssues gr2 > 0),
                   SharedLabels := sort_Sort label_less (shared_loop config (range_order p m) []),
                   HasSharedLabels :=
                     (length (sort_Sort label_less (shared_loop config (range_order p m) [])) > 0)\<rparr>"
proof -
  obtain cs0 res where g: "getIssues p cl config = (cs0, res)"
    by (cases "getIssues p cl config")
  from assms g obtain issues where res: "res = Returned (issues, None)" and cs: "cs0 = cs"
    by (auto simp: refreshIssues_def Let_def split: go_result.splits option.splits prod.splits)
  obtain gr2 m where l: "issues_loop issues (gr\<lparr>Issues := issues, OpenIssues := 0, ClosedIssues := 0\<rparr>, []) = (gr2, m)"
    by (cases "issues_loop issues (gr\<lparr>Issues := issues, OpenIssues := 0, ClosedIssues := 0\<rparr>, [])")
  from assms g res l
  have "gr' = gr2\<lparr>HasIssues := (OpenIssues gr2 + ClosedIssues gr2 > 0),
                   SharedLabels := sort_Sort label_less (shared_loop config (range_order p m) []),
                   HasSharedLabels :=
                     (length (sort_Sort label_less (shared_loop config (range_order p m) [])) > 0)\<rparr>"
    by (simp add: refreshIssues_def Let_def)
  with g res cs l show thesis using that by blast
qed

text \<open>
  Claim C8. Whatever order the runtime visits the map \<open>sharedLabels\<close> in: after
  \<open>refreshIssues\<close> has returned without error, \<open>OpenIssues\<close> plus \<open>ClosedIssues\<close> is
  the number of issues, which is the number of issues fetched; \<open>HasIssues\<close> holds
  exactly when that number is positive; the names of \<open>SharedLabels\<close> are exactly
  the label names that occur more than once on the issues, one occurrence for each
  issue that carries the label, whatever the repository, in strictly ascending order,
  each with its number of occurrences as \<open>Count\<close>; and \<open>HasSharedLabels\<close> holds
  exactly when \<open>SharedLabels\<close> is not empty. When no issue lists a label twice, the
  number of occurrences of a label is the number of issues that carry it.
\<close>

theorem refreshIssues_report:
  assumes "\<forall>m. mset (range_order p m) = mset m"
    and "refreshIssues p gr config cl = (cs, Returned (gr', None))"
  shows "OpenIssues gr' + ClosedIssues gr' = int (length (Issues gr'))
       \<and> length (Issues gr') = fetched cl cs
       \<and> (HasIssues gr' \<longleftrightarrow> 0 < length (Issues gr'))
       \<and> set (map slName (SharedLabels gr')) = {l. 1 < occurrences (Issues gr') l}
       \<and> sorted (map slName (SharedLabels gr'))
       \<and> distinct (map slName (SharedLabels gr'))
       \<and> (\<forall>sl \<in> set (SharedLabels gr'). slCount sl = int (occurrences (Issues gr') (slName sl)))
       \<and> ((\<forall>v \<in> set (Issues gr'). distinct (LabelNames v)) \<longrightarrow>
            (\<forall>l. occurrences (Issues gr') l
                  = length (filter (\<lambda>v. l \<in> set (LabelNames v)) (Issues gr'))))
       \<and> (HasSharedLabels gr' \<longleftrightarrow> SharedLabels gr' \<noteq> [])"
proof -
  from assms(2) obtain issues gr2 m where
    g: "getIssues p cl config = (cs, Returned (issues, None))"
    and l: "issues_loop issues (gr\<lparr>Issues := issues, OpenIssues := 0, ClosedIssues := 0\<rparr>, []) = (gr2, m)"
    and gr': "gr' = gr2\<lparr>HasIssues := (OpenIssues gr2 + ClosedIssues gr2 > 0),
                   SharedLabels := sort_Sort label_less (shared_loop config (range_order p m) []),
                   HasSharedLabels :=
                     (length (sort_Sort label_less (shared_loop config (range_order p m) [])) > 0)\<rparr>"
    by (rule refreshIssues_ok)
  let ?m = "range_order p m"
  let ?raw = "shared_loop config ?m []"
  let ?sl = "sort_Sort label_less ?raw"
  from issues_loop_inv [OF l]
  have dm: "distinct (map fst m)"
    and cnt: "\<And>l. label_count m l = occurrences issues l"
    and sum: "OpenIssues gr2 + ClosedIssues gr2 = int (length issues)"
    and iss: "Issues gr2 = issues"
    by (simp_all add: label_count_def)
  have I: "Issues gr' = issues" and S: "SharedLabels gr' = ?sl"
    and O: "OpenIssues gr' = OpenIssues gr2" and C: "ClosedIssues gr' = ClosedIssues gr2"
    and H: "HasIssues gr' = (OpenIssues gr2 + ClosedIssues gr2 > 0)"
    and HS: "HasSharedLabels gr' = (length ?sl > 0)"
    by (simp_all add: gr' iss)
  have perm: "mset ?m = mset m" using assms(1) by blast
  then have set_m: "set ?m = set m" by (rule mset_eq_setD)
  have "mset (map fst ?m) = mset (map fst m)" using perm by (metis mset_map)
  then have dm': "distinct (map fst ?m)" using dm by (metis mset_eq_imp_distinct_iff)
  have cnt': "label_count ?m l = label_count m l" for l
  proof -
    have "map_of ?m = map_of m"
      by (rule map_of_inject_set [THEN iffD2, OF dm' dm set_m])
    then show ?thesis by (simp add: label_count_def)
  qed
  have raw_names: "map slName ?raw = map fst (filter (\<lambda>kv. 1 < length (snd kv)) ?m)"
    by (simp add: shared_loop_names)
  have raw_set: "set (map slName ?raw) = {l. 1 < occurrences issues l}"
    by (simp only: raw_names shared_names_set [OF dm'] cnt' cnt)
  have raw_dist: "distinct (map slName ?raw)"
    unfolding raw_names using dm' by (rule distinct_map_filter)
  have ms: "mset ?sl = mset ?raw" by (rule mset_sort_Sort)
  then have msn: "mset (map slName ?sl) = mset (map slName ?raw)" by (metis mset_map)
  have 1: "OpenIssues gr' + ClosedIssues gr' = int (length (Issues gr'))"
    by (simp add: O C I sum)
  have 2: "length (Issues gr') = fetched cl cs"
    using getIssues_fetches_length [OF g] by (simp add: I)
  have 3: "HasIssues gr' \<longleftrightarrow> 0 < length (Issues gr')"
    by (simp add: H I sum)
  have 4: "set (map slName (SharedLabels gr')) = {l. 1 < occurrences (Issues gr') l}"
    using msn raw_set by (simp only: S I) (metis mset_eq_setD)
  have "sorted_wrt (\<lambda>a b. slName a \<le> slName b) ?sl"
    by (rule sort_Sort_ascending [where key = slName]) (rule label_less_key)
  then have 5: "sorted (map slName (SharedLabels gr'))"
    by (simp add: S sorted_map)
  have 6: "distinct (map slName (SharedLabels gr'))"
    using msn raw_dist by (simp only: S) (metis mset_eq_imp_distinct_iff)
  have 7: "\<forall>sl \<in> set (SharedLabels gr'). slCount sl = int (occurrences (Issues gr') (slName sl))"
  proof
    fix sl assume "sl \<in> set (SharedLabels gr')"
    then have "sl \<in> set ?raw" using ms by (simp only: S) (metis mset_eq_setD)
    from shared_loop_counts [OF this] obtain rs
      where "(slName sl, rs) \<in> set ?m" and c: "slCount sl = int (length rs)" by auto
    with dm' have "label_count ?m (slName sl) = length rs" by (simp add: label_count_distinct)
    with c show "slCount sl = int (occurrences (Issues gr') (slName sl))"
      by (simp add: cnt' cnt I)
  qed
  have 8: "(\<forall>v \<in> set (Issues gr'). distinct (LabelNames v)) \<longrightarrow>
            (\<forall>l. occurrences (Issues gr') l
                  = length (filter (\<lambda>v. l \<in> set (LabelNames v)) (Issues gr')))"
    using occurrences_distinct by blast
  have 9: "HasSharedLabels gr' \<longleftrightarrow> SharedLabels gr' \<noteq> []"
    by (simp add: HS S)
  from 1 2 3 4 5 6 7 8 9 show ?thesis by blast
qed


lemma report_refresh:
  "case refreshIssues test_pkg empty_render report_config test_client of
     (cs, Returned (gr', None)) \<Rightarrow>
        map ID (Issues gr') = [2, 3, 1]
        \<and> map IsOpen (Issues gr') = [False, True, True]
        \<and> map LabelNames (Issues gr') = [[''bug'', ''docs''], [''docs''], [''bug'']]
        \<and> OpenIssues gr' = 2 \<and> ClosedIssues gr' = 1 \<and> HasIssues gr'
        \<and> map slName (SharedLabels gr') = [''bug'', ''docs'']
        \<and> map slCount (SharedLabels gr') = [2, 2]
        \<and> HasSharedLabels gr'
   | _ \<Rightarrow> False"
  by code_simp

theorem refreshIssues_report_witness:
  "(\<forall>m. mset (range_order test_pkg m) = mset m)
   \<and> (\<exists>cs gr'. refreshIssues test_pkg empty_render report_config test_client = (cs, Returned (gr', None))
        \<and> map LabelNames (Issues gr') = [[''bug'', ''docs''], [''docs''], [''bug'']]
        \<and> OpenIssues gr' = 2 \<and> ClosedIssues gr' = 1
        \<and> OpenIssues gr' + ClosedIssues gr' = int (length (Issues gr'))
        \<and> length (Issues gr') = fetched test_client cs
        \<and> HasIssues gr'
        \<and> map slName (SharedLabels gr') = [''bug'', ''docs'']
        \<and> set (map slName (SharedLabels gr')) = {l. 1 < occurrences (Issues gr') l}
        \<and> sorted (map slName (SharedLabels gr'))
        \<and> list_all (\<lambda>sl. slCount sl = int (occurrences (Issues gr') (slName sl))) (SharedLabels gr')
        \<and> list_all (\<lambda>v. distinct (LabelNames v)) (Issues gr')
        \<and> occurrences (Issues gr') ''bug''
              = length (filter (\<lambda>v. ''bug'' \<in> set (LabelNames v)) (Issues gr'))
        \<and> HasSharedLabels gr')"
proof -
  have perm: "\<forall>m. mset (range_order test_pkg m) = mset m"
    by (simp add: test_pkg_def)
  obtain cs res where run: "refreshIssues test_pkg empty_render report_config test_client = (cs, res)"
    by (cases "refreshIssues test_pkg empty_render report_config test_client")
  with report_refresh obtain gr' where res: "res = Returned (gr', None)"
    and facts: "map LabelNames (Issues gr') = [[''bug'', ''docs''], [''docs''], [''bug'']]"
      "OpenIssues gr' = 2" "ClosedIssues gr' = 1" "HasIssues gr'"
      "map slName (SharedLabels gr') = [''bug'', ''docs'']" "HasSharedLabels gr'"
    by (auto split: go_result.splits option.splits)
  from run res have ok: "refreshIssues test_pkg empty_render report_config test_client
      = (cs, Returned (gr', None))" by simp
  have "\<forall>ls \<in> set (map LabelNames (Issues gr')). distinct ls"
    by (simp add: facts(1))
  then have dist: "\<forall>v \<in> set (Issues gr'). distinct (LabelNames v)"
    by simp
  from refreshIssues_report [OF perm ok]
  have concl: "OpenIssues gr' + ClosedIssues gr' = int (length (Issues gr'))"
    "length (Issues gr') = fetched test_client cs"
    "set (map slName (SharedLabels gr')) = {l. 1 < occurrences (Issues gr') l}"
    "sorted (map slName (SharedLabels gr'))"
    and counts: "\<forall>sl \<in> set (SharedLabels gr'). slCount sl = int (occurrences (Issues gr') (slName sl))"
    and carry: "(\<forall>v \<in> set (Issues gr'). distinct (LabelNames v)) \<longrightarrow>
            (\<forall>l. occurrences (Issues gr') l
                  = length (filter (\<lambda>v. l \<in> set (LabelNames v)) (Issues gr')))"
    by blast+
  from counts
  have c1: "list_all (\<lambda>sl. slCount sl = int (occurrences (Issues gr') (slName sl))) (SharedLabels gr')"
    by (simp add: list_all_iff)
  from dist have c2: "list_all (\<lambda>v. distinct (LabelNames v)) (Issues gr')"
    by (simp add: list_all_iff)
  from carry dist
  have c3: "occurrences (Issues gr') ''bug''
              = length (filter (\<lambda>v. ''bug'' \<in> set (LabelNames v)) (Issues gr'))"
    by blast
  show ?thesis
    by (intro conjI exI [of _ cs] exI [of _ gr']) (fact perm ok facts concl c1 c2 c3)+
qed

end
